theory Spec2Isabelle
  imports Main "HOL-Library.Word" "HOL-Library.Multiset"
begin

section \<open>Best-first search (bestfirstsearch.hpp): data model\<close>

text \<open>
  A search node is the record behind \<open>Traits::node\<close>: a state, the parent it was
  generated from, the generating action and the accumulated path cost.  The C++ type
  is a nullable shared pointer; a null pointer is \<open>None\<close> of \<open>node option\<close>, so
  the parent of the root (\<open>Node()\<close>) is \<open>None\<close>.
\<close>

datatype ('s, 'a, 'c) node =
  Node (state: 's) (parent: "('s, 'a, 'c) node option") (action: 'a) (path_cost: 'c)

text \<open>The only exception class of the header.\<close>

datatype error = goal_not_found

text \<open>
  The problem formulation consumed by the algorithms.  \<open>action0\<close> stands for the
  value-initialised \<open>Action()\<close> that the root node carries.
\<close>

record ('s, 'a, 'c) problem =
  initial :: 's
  action0 :: 'a
  goal_test :: "'s \<Rightarrow> bool"
  actions :: "'s \<Rightarrow> 'a list"
  result :: "'s \<Rightarrow> 'a \<Rightarrow> 's"
  step_cost :: "'s \<Rightarrow> 'a \<Rightarrow> 's \<Rightarrow> 'c"

text \<open>
  Modelled from the spec: \<open>problem.hpp\<close> with the node-creation policy is not part of
  the sources.  \<open>create(state, parent, action, cost)\<close> builds the node record from its
  four fields.
\<close>

definition create ::
  "'s \<Rightarrow> ('s, 'a, 'c) node option \<Rightarrow> 'a \<Rightarrow> 'c \<Rightarrow> ('s, 'a, 'c) node" where
  "create s p a c = Node s p a c"

text \<open>
  Modelled from the spec: the child policy of \<open>problem.hpp\<close> is not part of the sources.
  \<open>child(parent_node, action, successor_state)\<close> builds the node for the successor
  state, with the given parent and action; its path cost is the parent's plus the step
  cost (the Node invariant of the data model).
\<close>

definition child ::
  "('s, 'a, 'c::plus) problem \<Rightarrow> ('s, 'a, 'c) node \<Rightarrow> 'a \<Rightarrow> 's \<Rightarrow> ('s, 'a, 'c) node" where
  "child P n a s' = create s' (Some n) a (path_cost n + step_cost P (state n) a s')"

text \<open>
  Modelled from the spec: the two-argument \<open>child(parent_node, action)\<close> of the absent
  \<open>problem.hpp\<close>, which computes the successor state with the transition function.
\<close>

definition child2 ::
  "('s, 'a, 'c::plus) problem \<Rightarrow> ('s, 'a, 'c) node \<Rightarrow> 'a \<Rightarrow> ('s, 'a, 'c) node" where
  "child2 P n a = child P n a (result P (state n) a)"

section \<open>Priority queues\<close>

text \<open>
  The priority queues are max-heaps under a C++ comparator \<open>lt\<close> (\<open>lt x y\<close>: \<open>x\<close> has
  lower priority than \<open>y\<close>).  A heap is represented by the list of its entries in
  ordered-iteration order, the top first.  \<open>heap_push\<close> puts the new entry in front of
  the first entry of lower priority.
\<close>

fun heap_push :: "('e \<Rightarrow> 'e \<Rightarrow> bool) \<Rightarrow> 'e \<Rightarrow> 'e list \<Rightarrow> 'e list" where
  "heap_push lt x [] = [x]"
| "heap_push lt x (y # ys) = (if lt y x then x # y # ys else y # heap_push lt x ys)"

text \<open>\<open>detail::pop\<close>: \<open>top()\<close> followed by \<open>pop()\<close>; \<open>None\<close> is the empty queue.\<close>

definition pop :: "'e list \<Rightarrow> ('e \<times> 'e list) option" where
  "pop pq = (case pq of [] \<Rightarrow> None | E # rest \<Rightarrow> Some (E, rest))"

subsection \<open>The frontier of Graph Search\<close>

text \<open>
  Modelled from the spec: \<open>utils/queue_set.hpp\<close> is not part of the sources.  The
  frontier (\<open>queue_set\<close>) is a priority queue with a state-keyed lookup table that is
  always consistent with the queue.  The model keeps the queue, best entry first, and
  derives the table from it; a location is the position of an entry in the queue.
  Its \<open>top()\<close> and \<open>pop()\<close>, used through \<open>detail::pop\<close>, give and remove the best
  entry, the head of the list.
\<close>

type_synonym ('s, 'a, 'c) frontier = "('s, 'a, 'c) node list"

text \<open>
  Modelled from the spec: \<open>push(node)\<close> of the absent \<open>queue_set\<close> inserts the node by
  its priority (and registers its state in the lookup table).
\<close>

definition push ::
  "(('s, 'a, 'c) node \<Rightarrow> ('s, 'a, 'c) node \<Rightarrow> bool) \<Rightarrow> ('s, 'a, 'c) frontier \<Rightarrow>
   ('s, 'a, 'c) node \<Rightarrow> ('s, 'a, 'c) frontier" where
  "push cmp fr n = heap_push cmp n fr"

text \<open>
  Modelled from the spec: \<open>find(state)\<close> of the absent \<open>queue_set\<close> is the location of
  the entry with that state, \<open>None\<close> (the end iterator) when there is none.
\<close>

fun find_loc :: "('s, 'a, 'c) frontier \<Rightarrow> 's \<Rightarrow> nat option" where
  "find_loc [] s = None"
| "find_loc (n # fr) s =
     (if state n = s then Some 0 else map_option Suc (find_loc fr s))"

text \<open>
  Modelled from the spec: taking the entry at a location out of the queue, the first
  half of \<open>increase\<close> of the absent \<open>queue_set\<close>.
\<close>

fun erase_at :: "nat \<Rightarrow> 'e list \<Rightarrow> 'e list" where
  "erase_at i [] = []"
| "erase_at 0 (x # xs) = xs"
| "erase_at (Suc i) (x # xs) = x # erase_at i xs"

text \<open>
  Modelled from the spec: \<open>increase(location, new_node)\<close> of the absent \<open>queue_set\<close>
  replaces the entry at the location by the new node and restores the order (and the
  lookup table): the old entry is taken out and the new node inserted by its priority.
\<close>

definition increase ::
  "(('s, 'a, 'c) node \<Rightarrow> ('s, 'a, 'c) node \<Rightarrow> bool) \<Rightarrow> ('s, 'a, 'c) frontier \<Rightarrow> nat \<Rightarrow>
   ('s, 'a, 'c) node \<Rightarrow> ('s, 'a, 'c) frontier" where
  "increase cmp fr loc n = heap_push cmp n (erase_at loc fr)"

subsection \<open>Duplicate resolution\<close>

text \<open>
  \<open>detail::handle_child\<close>.  The frontier is an in-out parameter, so the model returns the
  new frontier with the reported element: \<open>None\<close> for \<open>nullptr\<close>, \<open>CHILD\<close> when it was
  pushed, the replaced duplicate when \<open>CHILD\<close> took its place.  A location given by
  \<open>find_loc\<close> is a position inside the list, so \<open>*DUPLICATE\<close> reads an entry that is
  there.
\<close>

definition handle_child ::
  "(('s, 'a, 'c::ord) node \<Rightarrow> ('s, 'a, 'c) node \<Rightarrow> bool) \<Rightarrow> ('s, 'a, 'c) frontier \<Rightarrow>
   ('s, 'a, 'c) node \<Rightarrow> ('s, 'a, 'c) frontier \<times> ('s, 'a, 'c) node option" where
  "handle_child cmp frontier CHILD =
     (case find_loc frontier (state CHILD) of
        Some IT \<Rightarrow>
          (let DUPLICATE = frontier ! IT in
           if path_cost CHILD < path_cost DUPLICATE
           then (increase cmp frontier IT CHILD, Some DUPLICATE)
           else (frontier, None))
      | None \<Rightarrow> (push cmp frontier CHILD, Some CHILD))"

section \<open>Graph Search\<close>

text \<open>
  The output sink is an append-only cursor; it is modelled by the list of the states
  written so far.  \<open>unravel\<close> is the recursive lambda of the goal branch: it writes the
  state of the node, then follows the parent pointer while there is one.
\<close>

fun unravel :: "'s list \<Rightarrow> ('s, 'a, 'c) node \<Rightarrow> 's list" where
  "unravel path (Node s p a c) =
     (case p of
        Some q \<Rightarrow> unravel (path @ [s]) q
      | None \<Rightarrow> path @ [s])"

text \<open>
  The \<open>std::for_each\<close> over the actions of the popped node \<open>S\<close>: a successor that is not
  in the closed set is made a child node and handed to \<open>handle_child\<close>.
\<close>

definition expand ::
  "('s, 'a, 'c::{ord,plus}) problem \<Rightarrow> (('s, 'a, 'c) node \<Rightarrow> ('s, 'a, 'c) node \<Rightarrow> bool) \<Rightarrow>
   ('s, 'a, 'c) node \<Rightarrow> 's set \<Rightarrow> ('s, 'a, 'c) frontier \<Rightarrow> ('s, 'a, 'c) frontier" where
  "expand P cmp S closed frontier =
     fold (\<lambda>ACTION fr.
        let SUCCESSOR = result P (state S) ACTION in
        if SUCCESSOR \<notin> closed
        then fst (handle_child cmp fr (child P S ACTION SUCCESSOR))
        else fr)
       (actions P (state S)) frontier"

text \<open>
  The \<open>while\<close> loop of Graph Search.  The loop need not end (the problem graph may be
  infinite), so it runs on fuel: one unit per iteration, \<open>None\<close> when the fuel is used
  up.  A result is \<open>Inl goal_not_found\<close> for the exception, or \<open>Inr\<close> of the sink and the
  returned path cost.
\<close>

fun gs_loop ::
  "nat \<Rightarrow> ('s, 'a, 'c::{ord,plus}) problem \<Rightarrow> (('s, 'a, 'c) node \<Rightarrow> ('s, 'a, 'c) node \<Rightarrow> bool) \<Rightarrow>
   's list \<Rightarrow> ('s, 'a, 'c) frontier \<Rightarrow> 's set \<Rightarrow> (error + 's list \<times> 'c) option" where
  "gs_loop 0 P cmp path frontier closed = None"
| "gs_loop (Suc k) P cmp path frontier closed =
     (case pop frontier of
        None \<Rightarrow> Some (Inl goal_not_found)
      | Some (S, frontier') \<Rightarrow>
          if goal_test P (state S)
          then Some (Inr (unravel path S, path_cost S))
          else
            let closed' = insert (state S) closed in
            gs_loop k P cmp path (expand P cmp S closed' frontier') closed')"

definition best_first_search ::
  "nat \<Rightarrow> ('s, 'a, 'c::{ord,plus,zero}) problem \<Rightarrow>
   (('s, 'a, 'c) node \<Rightarrow> ('s, 'a, 'c) node \<Rightarrow> bool) \<Rightarrow> 's list \<Rightarrow>
   (error + 's list \<times> 'c) option" where
  "best_first_search k P cmp path =
     gs_loop k P cmp path (push cmp [] (create (initial P) None (action0 P) 0)) {}"

text \<open>
  The state of the loop after \<open>n\<close> complete iterations, each of which popped a node that
  failed the goal test; \<open>None\<close> when the loop has left before (empty frontier, or a goal
  popped).  It repeats the \<open>else\<close> branch of the loop body and is used to speak about
  what happens during a run.
\<close>

fun gs_iter ::
  "nat \<Rightarrow> ('s, 'a, 'c::{ord,plus}) problem \<Rightarrow> (('s, 'a, 'c) node \<Rightarrow> ('s, 'a, 'c) node \<Rightarrow> bool) \<Rightarrow>
   ('s, 'a, 'c) frontier \<Rightarrow> 's set \<Rightarrow> (('s, 'a, 'c) frontier \<times> 's set) option" where
  "gs_iter 0 P cmp frontier closed = Some (frontier, closed)"
| "gs_iter (Suc n) P cmp frontier closed =
     (case pop frontier of
        None \<Rightarrow> None
      | Some (S, frontier') \<Rightarrow>
          if goal_test P (state S) then None
          else
            let closed' = insert (state S) closed in
            gs_iter n P cmp (expand P cmp S closed' frontier') closed')"

section \<open>Tree Search\<close>

text \<open>
  The frontier is a plain priority queue; every child is emplaced, whatever its state.
  The function returns the goal node.
\<close>

definition ts_expand ::
  "('s, 'a, 'c::plus) problem \<Rightarrow> (('s, 'a, 'c) node \<Rightarrow> ('s, 'a, 'c) node \<Rightarrow> bool) \<Rightarrow>
   ('s, 'a, 'c) node \<Rightarrow> ('s, 'a, 'c) node list \<Rightarrow> ('s, 'a, 'c) node list" where
  "ts_expand P cmp S frontier =
     fold (\<lambda>action' fr. heap_push cmp (child2 P S action') fr) (actions P (state S)) frontier"

fun ts_loop ::
  "nat \<Rightarrow> ('s, 'a, 'c::plus) problem \<Rightarrow> (('s, 'a, 'c) node \<Rightarrow> ('s, 'a, 'c) node \<Rightarrow> bool) \<Rightarrow>
   ('s, 'a, 'c) node list \<Rightarrow> (error + ('s, 'a, 'c) node) option" where
  "ts_loop 0 P cmp frontier = None"
| "ts_loop (Suc k) P cmp frontier =
     (case pop frontier of
        None \<Rightarrow> Some (Inl goal_not_found)
      | Some (S, frontier') \<Rightarrow>
          if goal_test P (state S) then Some (Inr S)
          else ts_loop k P cmp (ts_expand P cmp S frontier'))"

definition best_first_search_tree ::
  "nat \<Rightarrow> ('s, 'a, 'c::{plus,zero}) problem \<Rightarrow>
   (('s, 'a, 'c) node \<Rightarrow> ('s, 'a, 'c) node \<Rightarrow> bool) \<Rightarrow> (error + ('s, 'a, 'c) node) option" where
  "best_first_search_tree k P cmp =
     ts_loop k P cmp (heap_push cmp (create (initial P) None (action0 P) 0) [])"

fun ts_iter ::
  "nat \<Rightarrow> ('s, 'a, 'c::plus) problem \<Rightarrow> (('s, 'a, 'c) node \<Rightarrow> ('s, 'a, 'c) node \<Rightarrow> bool) \<Rightarrow>
   ('s, 'a, 'c) node list \<Rightarrow> ('s, 'a, 'c) node list option" where
  "ts_iter 0 P cmp frontier = Some frontier"
| "ts_iter (Suc n) P cmp frontier =
     (case pop frontier of
        None \<Rightarrow> None
      | Some (S, frontier') \<Rightarrow>
          if goal_test P (state S) then None
          else ts_iter n P cmp (ts_expand P cmp S frontier'))"

section \<open>Recursive best-first search\<close>

text \<open>
  \<open>NodeCost\<close>: a node with its stored, revisable cost.  The stored costs are passed as
  \<open>F_N\<close> and compared with the bound, so \<open>Traits::cost\<close> and \<open>Traits::pathcost\<close> are one
  numeric type \<open>'c\<close>.  \<open>NodeCost_less\<close> is the \<open>operator<\<close> of the class: greater-than
  on the stored costs for the max-heap, the tie policy \<open>split\<close> on equal costs.
\<close>

record ('s, 'a, 'c) NodeCost =
  node :: "('s, 'a, 'c) node"
  cost :: 'c

definition NodeCost_less ::
  "(('s, 'a, 'c) node \<Rightarrow> ('s, 'a, 'c) node \<Rightarrow> bool) \<Rightarrow>
   ('s, 'a, 'c::ord) NodeCost \<Rightarrow> ('s, 'a, 'c) NodeCost \<Rightarrow> bool" where
  "NodeCost_less split x OTHER =
     (if cost x = cost OTHER then split (node x) (node OTHER)
      else (if cost x > cost OTHER then True else False))"

text \<open>
  \<open>RBFS_INF\<close> is \<open>std::numeric_limits<PathCost>::max()\<close>: the greatest value of the cost
  type, \<open>top\<close> of the order (\<open>- 1\<close> of an unsigned machine word).
\<close>

definition RBFS_INF :: "'c::order_top" where
  "RBFS_INF = top"

text \<open>
  The \<open>for\<close> loop over the actions: every child is pushed with its propagated cost
  \<open>f_RESULT\<close>.  \<open>f\<close> is \<open>COST.f\<close> of the cost function.
\<close>

definition f_RESULT :: "'c::linorder \<Rightarrow> 'c \<Rightarrow> 'c \<Rightarrow> 'c" where
  "f_RESULT f_N F_N f_CHILD = (if f_N < F_N then max F_N f_CHILD else f_CHILD)"

definition rbfs_children ::
  "('s, 'a, 'c::{linorder,plus}) problem \<Rightarrow> (('s, 'a, 'c) node \<Rightarrow> 'c) \<Rightarrow>
   (('s, 'a, 'c) node \<Rightarrow> ('s, 'a, 'c) node \<Rightarrow> bool) \<Rightarrow> ('s, 'a, 'c) node \<Rightarrow> 'c \<Rightarrow>
   ('s, 'a, 'c) NodeCost list" where
  "rbfs_children P f split NODE F_N =
     fold (\<lambda>ACTION children.
        let CHILD = child2 P NODE ACTION;
            f_CHILD = f CHILD
        in heap_push (NodeCost_less split)
             \<lparr>node = CHILD, cost = f_RESULT (f NODE) F_N f_CHILD\<rparr> children)
       (actions P (state NODE)) []"

text \<open>
  The cost of the second entry in ordered iteration, \<open>RBFS_INF\<close> when the best child is
  the only one.
\<close>

definition SECOND_BEST_COST :: "('s, 'a, 'c::order_top) NodeCost list \<Rightarrow> 'c" where
  "SECOND_BEST_COST rest = (case rest of [] \<Rightarrow> RBFS_INF | y # ys \<Rightarrow> cost y)"

text \<open>
  \<open>update_cost\<close> on the best entry followed by \<open>children.update(BEST.handle)\<close>: the entry
  keeps its node, takes the new cost and moves to its place in the order.
\<close>

definition update_best ::
  "(('s, 'a, 'c) node \<Rightarrow> ('s, 'a, 'c) node \<Rightarrow> bool) \<Rightarrow> ('s, 'a, 'c::ord) NodeCost \<Rightarrow> 'c \<Rightarrow>
   ('s, 'a, 'c) NodeCost list \<Rightarrow> ('s, 'a, 'c) NodeCost list" where
  "update_best split BEST c rest = heap_push (NodeCost_less split) (BEST\<lparr>cost := c\<rparr>) rest"

text \<open>
  \<open>recursive::recursive_best_first_search\<close> (\<open>rbfs\<close>) and its \<open>while\<close> loop
  (\<open>rbfs_loop\<close>).  Neither the recursion nor the loop need end, so both run on fuel: one
  unit per call and per iteration, \<open>None\<close> when it is used up.  A \<open>SearchResult\<close> is the
  pair of the goal node (\<open>None\<close> for \<open>nullptr\<close>) and a cost.  The children heap is never
  empty in the loop (the actions are not); \<open>top()\<close> of an empty heap has no result.
\<close>

fun rbfs ::
  "nat \<Rightarrow> ('s, 'a, 'c::{linorder,order_top,plus,zero}) problem \<Rightarrow> (('s, 'a, 'c) node \<Rightarrow> 'c) \<Rightarrow>
   (('s, 'a, 'c) node \<Rightarrow> ('s, 'a, 'c) node \<Rightarrow> bool) \<Rightarrow> ('s, 'a, 'c) node \<Rightarrow> 'c \<Rightarrow> 'c \<Rightarrow>
   (('s, 'a, 'c) node option \<times> 'c) option"
and rbfs_loop ::
  "nat \<Rightarrow> ('s, 'a, 'c) problem \<Rightarrow> (('s, 'a, 'c) node \<Rightarrow> 'c) \<Rightarrow>
   (('s, 'a, 'c) node \<Rightarrow> ('s, 'a, 'c) node \<Rightarrow> bool) \<Rightarrow> 'c \<Rightarrow> ('s, 'a, 'c) NodeCost list \<Rightarrow>
   (('s, 'a, 'c) node option \<times> 'c) option" where
  "rbfs 0 P f split NODE F_N B = None"
| "rbfs (Suc k) P f split NODE F_N B =
     (let f_N = f NODE in
      if f_N > B then Some (None, f_N)
      else if goal_test P (state NODE) then Some (Some NODE, 0)
      else if actions P (state NODE) = [] then Some (None, RBFS_INF)
      else rbfs_loop k P f split B (rbfs_children P f split NODE F_N))"
| "rbfs_loop 0 P f split B children = None"
| "rbfs_loop (Suc k) P f split B [] = None"
| "rbfs_loop (Suc k) P f split B (BEST # rest) =
     (if cost BEST \<le> B \<and> cost BEST < RBFS_INF
      then
        (case rbfs k P f split (node BEST) (cost BEST) (min B (SECOND_BEST_COST rest)) of
           None \<Rightarrow> None
         | Some (None, c) \<Rightarrow> rbfs_loop k P f split B (update_best split BEST c rest)
         | Some (Some g, c) \<Rightarrow> Some (Some g, c))
      else Some (None, cost BEST))"

text \<open>The entry point: seeds the recursion with \<open>f(root)\<close> and the bound \<open>INF\<close>.\<close>

definition recursive_best_first_search ::
  "nat \<Rightarrow> ('s, 'a, 'c::{linorder,order_top,plus,zero}) problem \<Rightarrow> (('s, 'a, 'c) node \<Rightarrow> 'c) \<Rightarrow>
   (('s, 'a, 'c) node \<Rightarrow> ('s, 'a, 'c) node \<Rightarrow> bool) \<Rightarrow> (error + ('s, 'a, 'c) node) option" where
  "recursive_best_first_search k P f split =
     (let INF' = top;
          initial' = create (initial P) None (action0 P) 0
      in case rbfs k P f split initial' (f initial') INF' of
           None \<Rightarrow> None
         | Some (None, c) \<Rightarrow> Some (Inl goal_not_found)
         | Some (Some g, c) \<Rightarrow> Some (Inr g))"

text \<open>
  The recursive calls made by an invocation, in the order they are made, each with its
  arguments \<open>(NODE, F_N, B)\<close>: the calls of the loop and, after each, the calls made
  inside it.  The functions follow \<open>rbfs\<close> and \<open>rbfs_loop\<close> branch by branch.
\<close>

fun rbfs_calls ::
  "nat \<Rightarrow> ('s, 'a, 'c::{linorder,order_top,plus,zero}) problem \<Rightarrow> (('s, 'a, 'c) node \<Rightarrow> 'c) \<Rightarrow>
   (('s, 'a, 'c) node \<Rightarrow> ('s, 'a, 'c) node \<Rightarrow> bool) \<Rightarrow> ('s, 'a, 'c) node \<Rightarrow> 'c \<Rightarrow> 'c \<Rightarrow>
   (('s, 'a, 'c) node \<times> 'c \<times> 'c) list"
and loop_calls ::
  "nat \<Rightarrow> ('s, 'a, 'c) problem \<Rightarrow> (('s, 'a, 'c) node \<Rightarrow> 'c) \<Rightarrow>
   (('s, 'a, 'c) node \<Rightarrow> ('s, 'a, 'c) node \<Rightarrow> bool) \<Rightarrow> 'c \<Rightarrow> ('s, 'a, 'c) NodeCost list \<Rightarrow>
   (('s, 'a, 'c) node \<times> 'c \<times> 'c) list" where
  "rbfs_calls 0 P f split NODE F_N B = []"
| "rbfs_calls (Suc k) P f split NODE F_N B =
     (let f_N = f NODE in
      if f_N > B then []
      else if goal_test P (state NODE) then []
      else if actions P (state NODE) = [] then []
      else loop_calls k P f split B (rbfs_children P f split NODE F_N))"
| "loop_calls 0 P f split B children = []"
| "loop_calls (Suc k) P f split B [] = []"
| "loop_calls (Suc k) P f split B (BEST # rest) =
     (if cost BEST \<le> B \<and> cost BEST < RBFS_INF
      then
        (let B' = min B (SECOND_BEST_COST rest) in
         (node BEST, cost BEST, B') # rbfs_calls k P f split (node BEST) (cost BEST) B' @
         (case rbfs k P f split (node BEST) (cost BEST) B' of
            None \<Rightarrow> []
          | Some (None, c) \<Rightarrow> loop_calls k P f split B (update_best split BEST c rest)
          | Some (Some g, c) \<Rightarrow> []))
      else [])"

section \<open>Runs of the searches\<close>

text \<open>
  The loop state of a run of Graph Search after \<open>n\<close> iterations: \<open>gs_iter\<close> from the
  frontier holding the root node and the empty closed set.
\<close>

definition gs_state ::
  "nat \<Rightarrow> ('s, 'a, 'c::{ord,plus,zero}) problem \<Rightarrow>
   (('s, 'a, 'c) node \<Rightarrow> ('s, 'a, 'c) node \<Rightarrow> bool) \<Rightarrow>
   (('s, 'a, 'c) frontier \<times> 's set) option" where
  "gs_state n P cmp =
     gs_iter n P cmp (push cmp [] (create (initial P) None (action0 P) 0)) {}"

text \<open>The same for Tree Search.\<close>

definition ts_state ::
  "nat \<Rightarrow> ('s, 'a, 'c::{plus,zero}) problem \<Rightarrow>
   (('s, 'a, 'c) node \<Rightarrow> ('s, 'a, 'c) node \<Rightarrow> bool) \<Rightarrow> ('s, 'a, 'c) node list option" where
  "ts_state n P cmp =
     ts_iter n P cmp (heap_push cmp (create (initial P) None (action0 P) 0) [])"

text \<open>The parent chain of a node: the node, its parent, and so on up to the root.\<close>

fun chain :: "('s, 'a, 'c) node \<Rightarrow> ('s, 'a, 'c) node list" where
  "chain (Node s p a c) = Node s p a c # (case p of None \<Rightarrow> [] | Some q \<Rightarrow> chain q)"

text \<open>
  The invariant of the Graph Search loop: the frontier has at most one entry for a
  state, and none for a state of the closed set.
\<close>

definition gs_inv :: "('s, 'a, 'c) frontier \<Rightarrow> 's set \<Rightarrow> bool" where
  "gs_inv fr cl \<longleftrightarrow> distinct (map state fr) \<and> state ` set fr \<inter> cl = {}"

section \<open>Example problems\<close>

text \<open>
  Uniform-cost ordering for the frontier: an entry has lower priority than another when
  its path cost is greater.
\<close>

definition ucs :: "('s, 'a, 'c::ord) node \<Rightarrow> ('s, 'a, 'c) node \<Rightarrow> bool" where
  "ucs x y = (path_cost x > path_cost y)"

text \<open>A frontier with two entries, for states 1 and 2.\<close>

definition fr1 :: "(nat, nat, nat) frontier" where
  "fr1 = [Node 1 None 0 5, Node 2 None 0 8]"

text \<open>
  Scenario 1 of the specification: states 0, 1, 2 (A, B, C), an action is the state
  it leads to, edges 0 to 1 (cost 1), 0 to 2 (cost 4) and 1 to 2 (cost 1); the goal is
  state 2.
\<close>

definition P1 :: "(nat, nat, nat) problem" where
  "P1 = \<lparr>initial = 0, action0 = 0, goal_test = (\<lambda>s. s = 2),
     actions = (\<lambda>s. if s = 0 then [1, 2] else if s = 1 then [2] else []),
     result = (\<lambda>s a. a),
     step_cost = (\<lambda>s a s'. if s = 0 \<and> a = 2 then 4 else 1)\<rparr>"

text \<open>A problem whose initial state is a goal.\<close>

definition P_goal0 :: "(nat, nat, nat) problem" where
  "P_goal0 = \<lparr>initial = 0, action0 = 0, goal_test = (\<lambda>s. s = 0),
     actions = (\<lambda>s. [1]), result = (\<lambda>s a. a), step_cost = (\<lambda>s a s'. 1)\<rparr>"

text \<open>
  Scenario 2 of the specification: the initial state has no actions and is not a goal.
  The costs are unsigned 8-bit machine integers.
\<close>

definition P_dead :: "(nat, nat, 8 word) problem" where
  "P_dead = \<lparr>initial = 0, action0 = 0, goal_test = (\<lambda>s. False),
     actions = (\<lambda>s. []), result = (\<lambda>s a. a), step_cost = (\<lambda>s a s'. 1)\<rparr>"

text \<open>A tie policy for \<open>NodeCost\<close>: on equal costs no entry is below the other.\<close>

definition first_wins :: "('s, 'a, 'c) node \<Rightarrow> ('s, 'a, 'c) node \<Rightarrow> bool" where
  "first_wins x y = False"

text \<open>Scenario 1 again, with unsigned 8-bit costs (so that \<open>RBFS_INF\<close> is 255).\<close>

definition P2 :: "(nat, nat, 8 word) problem" where
  "P2 = \<lparr>initial = 0, action0 = 0, goal_test = (\<lambda>s. s = 2),
     actions = (\<lambda>s. if s = 0 then [1, 2] else if s = 1 then [2] else []),
     result = (\<lambda>s a. a),
     step_cost = (\<lambda>s a s'. if s = 0 \<and> a = 2 then 4 else 1)\<rparr>"


text \<open>One step of cost 255 leads from the initial state 0 to the goal state 1.\<close>

definition P_far :: "(nat, nat, 8 word) problem" where
  "P_far = \<lparr>initial = 0, action0 = 0, goal_test = (\<lambda>s. s = 1),
     actions = (\<lambda>s. if s = 0 then [1] else []),
     result = (\<lambda>s a. a),
     step_cost = (\<lambda>s a s'. 255)\<rparr>"


section \<open>Priority queues and the frontier: basic facts\<close>

lemma length_heap_push: "length (heap_push lt x xs) = Suc (length xs)"
  by (induction xs) auto

lemma mset_heap_push: "mset (heap_push lt x xs) = add_mset x (mset xs)"
  by (induction xs) auto

lemma set_heap_push: "set (heap_push lt x xs) = insert x (set xs)"
  by (induction xs) auto

lemma filter_heap_push: "\<not> p x \<Longrightarrow> filter p (heap_push lt x xs) = filter p xs"
  by (induction xs) auto

lemma length_erase_at: "i < length xs \<Longrightarrow> Suc (length (erase_at i xs)) = length xs"
  by (induction i xs rule: erase_at.induct) auto

lemma mset_erase_at: "i < length xs \<Longrightarrow> add_mset (xs ! i) (mset (erase_at i xs)) = mset xs"
  by (induction i xs rule: erase_at.induct) auto

lemma filter_erase_at:
  "i < length xs \<Longrightarrow> \<not> p (xs ! i) \<Longrightarrow> filter p (erase_at i xs) = filter p xs"
  by (induction i xs rule: erase_at.induct) auto

lemma find_loc_None: "find_loc fr s = None \<longleftrightarrow> s \<notin> state ` set fr"
  by (induction fr) auto

lemma find_loc_Some: "find_loc fr s = Some i \<Longrightarrow> i < length fr \<and> state (fr ! i) = s"
  by (induction fr arbitrary: i) (auto split: if_splits)

lemma find_loc_first: "find_loc fr s = Some i \<Longrightarrow> j < i \<Longrightarrow> state (fr ! j) \<noteq> s"
proof (induction fr arbitrary: i j)
  case Nil
  then show ?case by simp
next
  case (Cons n fr)
  show ?case
  proof (cases "state n = s")
    case True
    with Cons.prems show ?thesis by simp
  next
    case False
    with Cons.prems obtain i' where i': "find_loc fr s = Some i'" "i = Suc i'"
      by auto
    show ?thesis
    proof (cases j)
      case 0
      with False show ?thesis by simp
    next
      case (Suc j')
      with Cons.prems i' have "j' < i'" by simp
      from Cons.IH[OF i'(1) this] Suc show ?thesis by simp
    qed
  qed
qed

section \<open>Duplicate resolution\<close>

text \<open>
  Claim C2.  For every frontier and every candidate child, \<open>handle_child\<close> does one of
  three things.  When no entry of the frontier has the candidate's state, the candidate
  is pushed and reported.  When there is one, \<open>find\<close> gives the location \<open>i\<close> of the
  (first) entry \<open>d\<close> with that state; if the candidate's path cost is strictly less than
  that of \<open>d\<close>, the frontier becomes \<open>increase\<close> at \<open>i\<close> with the candidate (the entries
  of the old frontier with \<open>d\<close> taken out and the candidate put in) and \<open>d\<close> is reported;
  otherwise the frontier is unchanged and the null result is reported.
\<close>

theorem handle_child_spec:
  "(state c \<notin> state ` set fr \<longrightarrow> handle_child cmp fr c = (push cmp fr c, Some c)) \<and>
   (state c \<in> state ` set fr \<longrightarrow>
      (\<exists>i d. find_loc fr (state c) = Some i \<and> i < length fr \<and> d = fr ! i \<and>
         state d = state c \<and> (\<forall>j<i. state (fr ! j) \<noteq> state c) \<and>
         mset (increase cmp fr i c) = add_mset c (mset fr - {#d#}) \<and>
         handle_child cmp fr c =
           (if path_cost c < path_cost d then (increase cmp fr i c, Some d) else (fr, None))))"
proof (intro conjI impI)
  assume "state c \<notin> state ` set fr"
  then have "find_loc fr (state c) = None" by (simp add: find_loc_None)
  then show "handle_child cmp fr c = (push cmp fr c, Some c)"
    by (simp add: handle_child_def)
next
  assume "state c \<in> state ` set fr"
  then have "find_loc fr (state c) \<noteq> None" by (simp add: find_loc_None)
  then obtain i where i: "find_loc fr (state c) = Some i" by auto
  have lt: "i < length fr" and st: "state (fr ! i) = state c"
    using find_loc_Some[OF i] by simp_all
  have first: "\<forall>j<i. state (fr ! j) \<noteq> state c"
    using find_loc_first[OF i] by blast
  have "add_mset (fr ! i) (mset (erase_at i fr)) = mset fr"
    using lt by (rule mset_erase_at)
  then have "mset (erase_at i fr) = mset fr - {#fr ! i#}"
    by (metis add_mset_remove_trivial)
  then have ms: "mset (increase cmp fr i c) = add_mset c (mset fr - {#fr ! i#})"
    by (simp add: increase_def mset_heap_push)
  have "handle_child cmp fr c =
      (if path_cost c < path_cost (fr ! i) then (increase cmp fr i c, Some (fr ! i))
       else (fr, None))"
    using i by (simp add: handle_child_def)
  with i lt st first ms
  show "\<exists>i d. find_loc fr (state c) = Some i \<and> i < length fr \<and> d = fr ! i \<and>
         state d = state c \<and> (\<forall>j<i. state (fr ! j) \<noteq> state c) \<and>
         mset (increase cmp fr i c) = add_mset c (mset fr - {#d#}) \<and>
         handle_child cmp fr c =
           (if path_cost c < path_cost d then (increase cmp fr i c, Some d) else (fr, None))"
    by blast
qed

text \<open>
  The three cases on \<open>fr1\<close>: a new state 3 is pushed between the two entries; a cheaper
  path to state 2 replaces the entry of cost 8, which is reported; an equally expensive
  path to state 2 is thrown away.
\<close>

theorem handle_child_spec_witness:
  "handle_child ucs fr1 (Node 3 None 0 6) =
     ([Node 1 None 0 5, Node 3 None 0 6, Node 2 None 0 8], Some (Node 3 None 0 6)) \<and>
   handle_child ucs fr1 (Node 2 None 7 4) =
     ([Node 2 None 7 4, Node 1 None 0 5], Some (Node 2 None 0 8)) \<and>
   handle_child ucs fr1 (Node 2 None 7 8) = (fr1, None)"
  using handle_child_spec[of "Node 3 None 0 6" fr1 ucs]
    handle_child_spec[of "Node 2 None 7 4" fr1 ucs]
    handle_child_spec[of "Node 2 None 7 8" fr1 ucs]
  by (simp add: fr1_def ucs_def push_def increase_def)

text \<open>
  Claim C10.  \<open>handle_child\<close> leaves every entry whose state differs from the
  candidate's as it was (the entries of other states are the same, in the same order,
  before and after), and the size of the frontier grows by exactly one when the
  candidate is pushed (its state was absent) and stays the same when an entry is
  replaced or the candidate is discarded (its state was present).
\<close>

theorem handle_child_frame:
  "filter (\<lambda>n. state n \<noteq> state c) (fst (handle_child cmp fr c)) =
     filter (\<lambda>n. state n \<noteq> state c) fr \<and>
   length (fst (handle_child cmp fr c)) =
     (if state c \<in> state ` set fr then length fr else Suc (length fr))"
proof (cases "find_loc fr (state c)")
  case None
  then have "state c \<notin> state ` set fr" by (simp add: find_loc_None)
  with None show ?thesis
    by (simp add: handle_child_def push_def filter_heap_push length_heap_push)
next
  case (Some i)
  have lt: "i < length fr" and st: "state (fr ! i) = state c"
    using find_loc_Some[OF Some] by simp_all
  have mem: "state c \<in> state ` set fr"
    using Some find_loc_None[of fr "state c"] by auto
  have "filter (\<lambda>n. state n \<noteq> state c) (increase cmp fr i c) =
      filter (\<lambda>n. state n \<noteq> state c) fr"
    using lt st by (simp add: increase_def filter_heap_push filter_erase_at)
  moreover have "length (increase cmp fr i c) = length fr"
    using length_erase_at[OF lt] by (simp add: increase_def length_heap_push)
  ultimately show ?thesis
    using Some mem by (simp add: handle_child_def Let_def)
qed

theorem handle_child_frame_witness:
  "filter (\<lambda>n. state n \<noteq> 3) (fst (handle_child ucs fr1 (Node 3 None 0 6))) = fr1 \<and>
   length (fst (handle_child ucs fr1 (Node 3 None 0 6))) = 3 \<and>
   filter (\<lambda>n. state n \<noteq> 2) (fst (handle_child ucs fr1 (Node 2 None 7 4))) =
     [Node 1 None 0 5] \<and>
   length (fst (handle_child ucs fr1 (Node 2 None 7 4))) = 2 \<and>
   length (fst (handle_child ucs fr1 (Node 2 None 7 8))) = 2"
  using handle_child_frame[of "Node 3 None 0 6" ucs fr1]
    handle_child_frame[of "Node 2 None 7 4" ucs fr1]
    handle_child_frame[of "Node 2 None 7 8" ucs fr1]
  by (simp add: fr1_def)

section \<open>Graph Search: the loop invariant\<close>

lemma pop_Some: "pop fr = Some (S, rest) \<longleftrightarrow> fr = S # rest"
  by (cases fr) (auto simp: pop_def)

lemma pop_None: "pop fr = None \<longleftrightarrow> fr = []"
  by (cases fr) (auto simp: pop_def)

lemma distinct_states_heap_push:
  "distinct (map state (heap_push lt x xs)) \<longleftrightarrow> state x \<notin> state ` set xs \<and> distinct (map state xs)"
proof -
  have "mset (map state (heap_push lt x xs)) = mset (map state (x # xs))"
    by (simp add: mset_heap_push)
  then have "distinct (map state (heap_push lt x xs)) \<longleftrightarrow> distinct (map state (x # xs))"
    by (rule mset_eq_imp_distinct_iff)
  then show ?thesis by simp
qed

lemma erase_at_states:
  "find_loc fr s = Some i \<Longrightarrow> distinct (map state fr) \<Longrightarrow>
   distinct (map state (erase_at i fr)) \<and> state ` set (erase_at i fr) = state ` set fr - {s}"
proof (induction fr arbitrary: i)
  case Nil
  then show ?case by simp
next
  case (Cons n fr)
  show ?case
  proof (cases "state n = s")
    case True
    with Cons.prems show ?thesis by auto
  next
    case False
    with Cons.prems obtain i' where i': "find_loc fr s = Some i'" "i = Suc i'"
      by auto
    from Cons.prems have "distinct (map state fr)" by simp
    from Cons.IH[OF i'(1) this] Cons.prems False i' show ?thesis by auto
  qed
qed

lemma handle_child_inv:
  assumes "distinct (map state fr)"
  shows "distinct (map state (fst (handle_child cmp fr c)))"
    and "state ` set (fst (handle_child cmp fr c)) = insert (state c) (state ` set fr)"
proof -
  have "distinct (map state (fst (handle_child cmp fr c))) \<and>
    state ` set (fst (handle_child cmp fr c)) = insert (state c) (state ` set fr)"
  proof (cases "find_loc fr (state c)")
    case None
    then have "state c \<notin> state ` set fr" by (simp add: find_loc_None)
    with None assms show ?thesis
      by (simp add: handle_child_def push_def distinct_states_heap_push set_heap_push)
  next
    case (Some i)
    have mem: "state c \<in> state ` set fr"
      using Some find_loc_None[of fr "state c"] by auto
    from erase_at_states[OF Some assms]
    have e: "distinct (map state (erase_at i fr))"
      "state ` set (erase_at i fr) = state ` set fr - {state c}" by simp_all
    have "distinct (map state (increase cmp fr i c))"
      using e by (simp add: increase_def distinct_states_heap_push)
    moreover have "state ` set (increase cmp fr i c) = insert (state c) (state ` set fr)"
      using e mem by (auto simp: increase_def set_heap_push)
    ultimately show ?thesis
      using Some assms mem by (auto simp: handle_child_def Let_def)
  qed
  then show "distinct (map state (fst (handle_child cmp fr c)))"
    and "state ` set (fst (handle_child cmp fr c)) = insert (state c) (state ` set fr)"
    by simp_all
qed

lemma state_child: "state (child P S a s') = s'"
  by (simp add: child_def create_def)

lemma expand_fold_inv:
  "gs_inv fr cl \<Longrightarrow>
   gs_inv (fold (\<lambda>ACTION fr.
        let SUCCESSOR = result P (state S) ACTION in
        if SUCCESSOR \<notin> cl
        then fst (handle_child cmp fr (child P S ACTION SUCCESSOR))
        else fr) as fr) cl"
proof (induction as arbitrary: fr)
  case Nil
  then show ?case by simp
next
  case (Cons a as)
  let ?s = "result P (state S) a"
  show ?case
  proof (cases "?s \<in> cl")
    case True
    with Cons show ?thesis by simp
  next
    case False
    let ?fr = "fst (handle_child cmp fr (child P S a ?s))"
    from Cons.prems have d: "distinct (map state fr)" by (simp add: gs_inv_def)
    have "gs_inv ?fr cl"
      using handle_child_inv[OF d, of cmp "child P S a ?s"] Cons.prems False
      by (auto simp: gs_inv_def state_child)
    from Cons.IH[OF this] False show ?thesis by simp
  qed
qed

lemma expand_inv: "gs_inv fr cl \<Longrightarrow> gs_inv (expand P cmp S cl fr) cl"
  unfolding expand_def by (rule expand_fold_inv)

lemma pop_inv:
  assumes "gs_inv fr cl" "pop fr = Some (S, rest)"
  shows "gs_inv rest (insert (state S) cl)" and "state S \<notin> cl"
  using assms by (auto simp: gs_inv_def pop_Some)

lemma gs_iter_inv:
  "gs_iter n P cmp fr cl = Some (fr', cl') \<Longrightarrow> gs_inv fr cl \<Longrightarrow> gs_inv fr' cl' \<and> cl \<subseteq> cl'"
proof (induction n arbitrary: fr cl)
  case 0
  then show ?case by simp
next
  case (Suc n)
  from Suc.prems(1) obtain S rest where p: "pop fr = Some (S, rest)"
    by (cases "pop fr") auto
  with Suc.prems(1) have ng: "\<not> goal_test P (state S)"
    and it: "gs_iter n P cmp (expand P cmp S (insert (state S) cl) rest) (insert (state S) cl)
      = Some (fr', cl')"
    by (auto simp: Let_def split: if_splits)
  have "gs_inv (expand P cmp S (insert (state S) cl) rest) (insert (state S) cl)"
    using pop_inv(1)[OF Suc.prems(2) p] by (rule expand_inv)
  from Suc.IH[OF it this] show ?case by auto
qed

lemma gs_iter_add:
  "gs_iter (m + n) P cmp fr cl =
     (case gs_iter m P cmp fr cl of None \<Rightarrow> None | Some (fr', cl') \<Rightarrow> gs_iter n P cmp fr' cl')"
  by (induction m arbitrary: fr cl) (auto simp: Let_def split: option.splits)

lemma gs_loop_iter:
  "gs_iter n P cmp fr cl = Some (fr', cl') \<Longrightarrow>
   gs_loop (n + k) P cmp path fr cl = gs_loop k P cmp path fr' cl'"
  by (induction n arbitrary: fr cl) (auto simp: Let_def split: option.splits if_splits)

lemma gs_loop_throws:
  "gs_loop k P cmp path fr cl = Some (Inl goal_not_found) \<longleftrightarrow>
   (\<exists>n<k. \<exists>cl'. gs_iter n P cmp fr cl = Some ([], cl'))"
proof (induction k arbitrary: fr cl)
  case 0
  then show ?case by simp
next
  case (Suc k)
  show ?case
  proof (cases "pop fr")
    case None
    then have "fr = []" by (simp add: pop_None)
    then have "gs_iter 0 P cmp fr cl = Some ([], cl)" by simp
    then have "\<exists>n<Suc k. \<exists>cl'. gs_iter n P cmp fr cl = Some ([], cl')" by blast
    with None show ?thesis by simp
  next
    case (Some a)
    then obtain S rest where p: "pop fr = Some (S, rest)" by (cases a) auto
    then have ne: "fr \<noteq> []" by (auto simp: pop_Some)
    show ?thesis
    proof (cases "goal_test P (state S)")
      case True
      have "\<not> (\<exists>n<Suc k. \<exists>cl'. gs_iter n P cmp fr cl = Some ([], cl'))"
      proof
        assume "\<exists>n<Suc k. \<exists>cl'. gs_iter n P cmp fr cl = Some ([], cl')"
        then obtain n cl' where "gs_iter n P cmp fr cl = Some ([], cl')" by blast
        with p True ne show False by (cases n) auto
      qed
      with p True show ?thesis by simp
    next
      case False
      let ?fr = "expand P cmp S (insert (state S) cl) rest"
      let ?cl = "insert (state S) cl"
      have "(\<exists>n<Suc k. \<exists>cl'. gs_iter n P cmp fr cl = Some ([], cl')) \<longleftrightarrow>
            (\<exists>n<k. \<exists>cl'. gs_iter n P cmp ?fr ?cl = Some ([], cl'))"
      proof
        assume "\<exists>n<Suc k. \<exists>cl'. gs_iter n P cmp fr cl = Some ([], cl')"
        then obtain n cl' where n: "n < Suc k" "gs_iter n P cmp fr cl = Some ([], cl')" by blast
        with ne obtain m where "n = Suc m" by (cases n) auto
        with n p False have "m < k" "gs_iter m P cmp ?fr ?cl = Some ([], cl')"
          by (auto simp: Let_def)
        then show "\<exists>n<k. \<exists>cl'. gs_iter n P cmp ?fr ?cl = Some ([], cl')" by blast
      next
        assume "\<exists>n<k. \<exists>cl'. gs_iter n P cmp ?fr ?cl = Some ([], cl')"
        then obtain m cl' where "m < k" "gs_iter m P cmp ?fr ?cl = Some ([], cl')" by blast
        with p False have "Suc m < Suc k" "gs_iter (Suc m) P cmp fr cl = Some ([], cl')"
          by (auto simp: Let_def)
        then show "\<exists>n<Suc k. \<exists>cl'. gs_iter n P cmp fr cl = Some ([], cl')" by blast
      qed
      with p False Suc.IH[of ?fr ?cl] show ?thesis by (simp add: Let_def)
    qed
  qed
qed

section \<open>Graph Search: each state is expanded once\<close>

lemma push_empty: "push cmp [] n = [n]"
  by (simp add: push_def)

lemma gs_inv_initial: "gs_inv (push cmp [] n) {}"
  by (simp add: push_empty gs_inv_def)

lemma fold_filter:
  "fold (\<lambda>x s. if p x then g x s else s) xs s = fold g (filter p xs) s"
  by (induction xs arbitrary: s) auto

lemma expand_filter:
  "expand P cmp S cl fr =
     fold (\<lambda>a fr. fst (handle_child cmp fr (child P S a (result P (state S) a))))
       (filter (\<lambda>a. result P (state S) a \<notin> cl) (actions P (state S))) fr"
  unfolding expand_def Let_def by (rule fold_filter)

lemma gs_iter_Suc_Some:
  assumes "gs_iter (Suc d) P cmp fr cl = Some (fr', cl')"
  obtains S rest where "pop fr = Some (S, rest)" "\<not> goal_test P (state S)"
    "gs_iter d P cmp (expand P cmp S (insert (state S) cl) rest) (insert (state S) cl)
       = Some (fr', cl')"
proof -
  from assms obtain S rest where p: "pop fr = Some (S, rest)"
    by (cases "pop fr") auto
  with assms have "\<not> goal_test P (state S)"
    "gs_iter d P cmp (expand P cmp S (insert (state S) cl) rest) (insert (state S) cl)
       = Some (fr', cl')"
    by (auto simp: Let_def split: if_splits)
  with p that show thesis by blast
qed

lemma gs_state_earlier:
  assumes j: "gs_state j P cmp = Some (fr_j, cl_j)" and lt: "i < j"
  shows "\<exists>fr_i cl_i S rest.
      gs_state i P cmp = Some (fr_i, cl_i) \<and> pop fr_i = Some (S, rest) \<and>
      \<not> goal_test P (state S) \<and> state S \<notin> cl_i \<and> state S \<in> cl_j \<and>
      gs_state (Suc i) P cmp =
        Some (expand P cmp S (insert (state S) cl_i) rest, insert (state S) cl_i)"
proof -
  define fr0 where "fr0 = push cmp [] (create (initial P) None (action0 P) 0)"
  have st: "\<And>n. gs_state n P cmp = gs_iter n P cmp fr0 {}"
    by (simp add: gs_state_def fr0_def)
  have inv0: "gs_inv fr0 {}"
    unfolding fr0_def by (rule gs_inv_initial)
  define d where "d = j - Suc i"
  have d: "j = i + Suc d"
    using lt by (simp add: d_def)
  from j have jj: "gs_iter (i + Suc d) P cmp fr0 {} = Some (fr_j, cl_j)"
    by (simp only: st d)
  have "gs_iter i P cmp fr0 {} \<noteq> None"
  proof
    assume "gs_iter i P cmp fr0 {} = None"
    then have "gs_iter (i + Suc d) P cmp fr0 {} = None"
      by (simp only: gs_iter_add option.case)
    with jj show False by simp
  qed
  then obtain fr_i cl_i where i: "gs_iter i P cmp fr0 {} = Some (fr_i, cl_i)"
    by (cases "gs_iter i P cmp fr0 {}") auto
  have r: "gs_iter (Suc d) P cmp fr_i cl_i = Some (fr_j, cl_j)"
    using jj by (simp only: gs_iter_add i option.case prod.case)
  from r obtain S rest where p: "pop fr_i = Some (S, rest)" and ng: "\<not> goal_test P (state S)"
    and it: "gs_iter d P cmp (expand P cmp S (insert (state S) cl_i) rest) (insert (state S) cl_i)
       = Some (fr_j, cl_j)"
    by (rule gs_iter_Suc_Some)
  have inv_i: "gs_inv fr_i cl_i"
    using gs_iter_inv[OF i inv0] by simp
  have notin: "state S \<notin> cl_i"
    using pop_inv(2)[OF inv_i p] .
  have "gs_inv (expand P cmp S (insert (state S) cl_i) rest) (insert (state S) cl_i)"
    using pop_inv(1)[OF inv_i p] by (rule expand_inv)
  from gs_iter_inv[OF it this] have mem: "state S \<in> cl_j" by auto
  have one: "gs_iter (Suc 0) P cmp fr_i cl_i =
      Some (expand P cmp S (insert (state S) cl_i) rest, insert (state S) cl_i)"
    using p ng by (simp add: Let_def)
  have "gs_iter (i + Suc 0) P cmp fr0 {} =
      Some (expand P cmp S (insert (state S) cl_i) rest, insert (state S) cl_i)"
    by (simp only: gs_iter_add i option.case prod.case one)
  then have nxt: "gs_state (Suc i) P cmp =
      Some (expand P cmp S (insert (state S) cl_i) rest, insert (state S) cl_i)"
    by (simp add: st)
  from i have i': "gs_state i P cmp = Some (fr_i, cl_i)"
    by (simp only: st)
  from i' p ng notin mem nxt show ?thesis
    by (intro exI conjI)
qed

text \<open>
  Claim C5.  In a run of Graph Search every state is expanded at most once.  Let the
  run have reached the loop state \<open>(fr_j, cl_j)\<close> after \<open>j\<close> iterations.  Then the
  frontier has at most one entry per state and none for a closed state, so the node
  popped next has a state outside the closed set; every earlier iteration \<open>i < j\<close>
  popped a node \<open>S\<close> that failed the goal test, whose state was not yet closed, was
  inserted into the closed set by that iteration and is still there (so the states
  popped in different iterations differ).  The expansion only makes child nodes, and
  only calls \<open>handle_child\<close>, for the actions whose successor is outside the closed set;
  and \<open>handle_child\<close>, the only other operation on the frontier, keeps the frontier at
  one entry per state.
\<close>

theorem graph_search_expands_once:
  assumes "gs_state j P cmp = Some (fr_j, cl_j)"
  shows "distinct (map state fr_j) \<and>
    state ` set fr_j \<inter> cl_j = {} \<and>
    (\<forall>S rest. pop fr_j = Some (S, rest) \<longrightarrow> state S \<notin> cl_j) \<and>
    (\<forall>i<j. \<exists>fr_i cl_i S rest.
        gs_state i P cmp = Some (fr_i, cl_i) \<and> pop fr_i = Some (S, rest) \<and>
        \<not> goal_test P (state S) \<and> state S \<notin> cl_i \<and> state S \<in> cl_j \<and>
        gs_state (Suc i) P cmp =
          Some (expand P cmp S (insert (state S) cl_i) rest, insert (state S) cl_i)) \<and>
    (\<forall>S cl fr. expand P cmp S cl fr =
        fold (\<lambda>a fr. fst (handle_child cmp fr (child P S a (result P (state S) a))))
          (filter (\<lambda>a. result P (state S) a \<notin> cl) (actions P (state S))) fr) \<and>
    (\<forall>fr c. distinct (map state fr) \<longrightarrow> distinct (map state (fst (handle_child cmp fr c))))"
proof -
  have inv: "gs_inv fr_j cl_j"
    using gs_iter_inv[OF assms[unfolded gs_state_def] gs_inv_initial] by simp
  then have a: "distinct (map state fr_j)" and b: "state ` set fr_j \<inter> cl_j = {}"
    by (simp_all add: gs_inv_def)
  have c: "\<forall>S rest. pop fr_j = Some (S, rest) \<longrightarrow> state S \<notin> cl_j"
    using b by (auto simp: pop_Some)
  have d: "\<forall>i<j. \<exists>fr_i cl_i S rest.
        gs_state i P cmp = Some (fr_i, cl_i) \<and> pop fr_i = Some (S, rest) \<and>
        \<not> goal_test P (state S) \<and> state S \<notin> cl_i \<and> state S \<in> cl_j \<and>
        gs_state (Suc i) P cmp =
          Some (expand P cmp S (insert (state S) cl_i) rest, insert (state S) cl_i)"
  proof (intro allI impI)
    fix i assume "i < j"
    with assms show "\<exists>fr_i cl_i S rest.
        gs_state i P cmp = Some (fr_i, cl_i) \<and> pop fr_i = Some (S, rest) \<and>
        \<not> goal_test P (state S) \<and> state S \<notin> cl_i \<and> state S \<in> cl_j \<and>
        gs_state (Suc i) P cmp =
          Some (expand P cmp S (insert (state S) cl_i) rest, insert (state S) cl_i)"
      by (rule gs_state_earlier)
  qed
  have e: "\<forall>S cl fr. expand P cmp S cl fr =
        fold (\<lambda>a fr. fst (handle_child cmp fr (child P S a (result P (state S) a))))
          (filter (\<lambda>a. result P (state S) a \<notin> cl) (actions P (state S))) fr"
    by (intro allI) (rule expand_filter)
  have f: "\<forall>fr c. distinct (map state fr) \<longrightarrow> distinct (map state (fst (handle_child cmp fr c)))"
    by (intro allI impI) (rule handle_child_inv(1))
  show ?thesis
    using a b c d e f by (intro conjI)
qed

lemma gs_state_P1_2:
  "gs_state (Suc (Suc 0)) P1 ucs =
     Some ([Node 2 (Some (Node 1 (Some (Node 0 None 0 0)) 1 1)) 2 2], {1, 0})"
  by (simp add: gs_state_def P1_def ucs_def push_def create_def pop_def expand_def
      handle_child_def child_def increase_def)

theorem graph_search_expands_once_witness:
  "gs_state (Suc (Suc 0)) P1 ucs =
     Some ([Node 2 (Some (Node 1 (Some (Node 0 None 0 0)) 1 1)) 2 2], {1, 0}) \<and>
   distinct (map state [Node 2 (Some (Node 1 (Some (Node 0 None 0 (0::nat))) 1 1)) 2 2 :: (nat, nat, nat) node]) \<and>
   state ` set [Node 2 (Some (Node 1 (Some (Node 0 None 0 0)) 1 1)) 2 2 :: (nat, nat, nat) node]
     \<inter> {1, 0} = {}"
proof -
  note w = graph_search_expands_once[OF gs_state_P1_2]
  from w have "distinct (map state [Node 2 (Some (Node 1 (Some (Node 0 None 0 (0::nat))) 1 1)) 2 2 :: (nat, nat, nat) node])"
    by (rule conjunct1)
  moreover from w have "state ` set [Node 2 (Some (Node 1 (Some (Node 0 None 0 0)) 1 1)) 2 2 :: (nat, nat, nat) node]
     \<inter> {1, 0} = {}"
    by (rule conjunct1[OF conjunct2])
  ultimately show ?thesis
    using gs_state_P1_2 by (intro conjI)
qed

section \<open>Graph Search: the reported path\<close>

lemma unravel_chain: "unravel path n = path @ map state (chain n)"
  by (induction path n rule: unravel.induct) (auto split: option.splits)

lemma chain_not_Nil: "chain n \<noteq> []"
  by (cases n) simp

lemma hd_chain: "hd (chain n) = n"
  by (cases n) simp

lemma last_chain_root: "parent (last (chain n)) = None"
  by (induction n rule: chain.induct) (auto split: option.splits simp: chain_not_Nil)

lemma chain_links: "Suc i < length (chain n) \<Longrightarrow> parent (chain n ! i) = Some (chain n ! Suc i)"
proof (induction n arbitrary: i rule: chain.induct)
  case (1 s p a c)
  show ?case
  proof (cases p)
    case None
    with "1.prems" show ?thesis by simp
  next
    case (Some q)
    show ?thesis
    proof (cases i)
      case 0
      with Some show ?thesis by (simp add: hd_conv_nth[symmetric] chain_not_Nil hd_chain)
    next
      case (Suc i')
      with "1.prems" Some have "Suc i' < length (chain q)" by simp
      from "1.IH"[OF Some this] Some Suc show ?thesis by simp
    qed
  qed
qed

lemma last_chain_child: "last (chain (child P S a s')) = last (chain S)"
  by (simp add: child_def create_def chain_not_Nil)

lemma set_erase_at: "set (erase_at i xs) \<subseteq> set xs"
  by (induction i xs rule: erase_at.induct) auto

lemma handle_child_set: "set (fst (handle_child cmp fr c)) \<subseteq> insert c (set fr)"
proof (cases "find_loc fr (state c)")
  case None
  then show ?thesis by (simp add: handle_child_def push_def set_heap_push)
next
  case (Some i)
  then show ?thesis
    using set_erase_at[of i fr]
    by (auto simp: handle_child_def Let_def increase_def set_heap_push)
qed

lemma expand_fold_rooted:
  "\<forall>n\<in>set fr. last (chain n) = r \<Longrightarrow> last (chain S) = r \<Longrightarrow>
   \<forall>n\<in>set (fold (\<lambda>ACTION fr.
        let SUCCESSOR = result P (state S) ACTION in
        if SUCCESSOR \<notin> cl
        then fst (handle_child cmp fr (child P S ACTION SUCCESSOR))
        else fr) as fr). last (chain n) = r"
proof (induction as arbitrary: fr)
  case Nil
  then show ?case by simp
next
  case (Cons a as)
  let ?s = "result P (state S) a"
  show ?case
  proof (cases "?s \<in> cl")
    case True
    with Cons show ?thesis by simp
  next
    case False
    let ?fr = "fst (handle_child cmp fr (child P S a ?s))"
    have "\<forall>n\<in>set ?fr. last (chain n) = r"
      using handle_child_set[of cmp fr "child P S a ?s"] Cons.prems
      by (auto simp: last_chain_child)
    from Cons.IH[OF this Cons.prems(2)] False show ?thesis by simp
  qed
qed

lemma expand_rooted:
  "\<forall>n\<in>set fr. last (chain n) = r \<Longrightarrow> last (chain S) = r \<Longrightarrow>
   \<forall>n\<in>set (expand P cmp S cl fr). last (chain n) = r"
  unfolding expand_def by (rule expand_fold_rooted)

lemma gs_iter_rooted:
  "gs_iter n P cmp fr cl = Some (fr', cl') \<Longrightarrow> \<forall>x\<in>set fr. last (chain x) = r \<Longrightarrow>
   \<forall>x\<in>set fr'. last (chain x) = r"
proof (induction n arbitrary: fr cl)
  case 0
  then show ?case by simp
next
  case (Suc n)
  from Suc.prems(1) obtain S rest where p: "pop fr = Some (S, rest)"
    and it: "gs_iter n P cmp (expand P cmp S (insert (state S) cl) rest) (insert (state S) cl)
       = Some (fr', cl')"
    by (rule gs_iter_Suc_Some)
  from p have fr: "fr = S # rest" by (simp add: pop_Some)
  with Suc.prems(2) have "\<forall>x\<in>set rest. last (chain x) = r" "last (chain S) = r"
    by simp_all
  then have "\<forall>x\<in>set (expand P cmp S (insert (state S) cl) rest). last (chain x) = r"
    by (rule expand_rooted)
  from Suc.IH[OF it this] show ?case .
qed

text \<open>
  Claim C6.  When a run of Graph Search, after \<open>n\<close> iterations, pops a node \<open>S\<close> whose
  state passes the goal test, the search returns (with any fuel beyond those
  iterations) the sink extended by the states of the parent chain of \<open>S\<close>, one per
  node, from \<open>S\<close> itself along the parent pointers to the node without parent, which is
  the root node holding the initial state; so the initial state is written last.  The
  returned cost is the path cost of \<open>S\<close>.
\<close>

theorem graph_search_goal_path:
  assumes "gs_state n P cmp = Some (fr, cl)" and "pop fr = Some (S, rest)"
    and "goal_test P (state S)"
  shows "best_first_search (Suc n + k) P cmp path =
      Some (Inr (path @ map state (chain S), path_cost S)) \<and>
    hd (chain S) = S \<and>
    (\<forall>i. Suc i < length (chain S) \<longrightarrow> parent (chain S ! i) = Some (chain S ! Suc i)) \<and>
    last (chain S) = create (initial P) None (action0 P) 0 \<and>
    parent (last (chain S)) = None \<and>
    last (map state (chain S)) = initial P"
proof -
  define fr0 where "fr0 = push cmp [] (create (initial P) None (action0 P) 0)"
  have it: "gs_iter n P cmp fr0 {} = Some (fr, cl)"
    using assms(1) by (simp add: gs_state_def fr0_def)
  have "gs_loop (n + Suc k) P cmp path fr0 {} = gs_loop (Suc k) P cmp path fr cl"
    using it by (rule gs_loop_iter)
  also have "\<dots> = Some (Inr (unravel path S, path_cost S))"
    using assms(2,3) by simp
  finally have res: "best_first_search (Suc n + k) P cmp path =
      Some (Inr (path @ map state (chain S), path_cost S))"
    by (simp add: best_first_search_def fr0_def unravel_chain)
  have "\<forall>x\<in>set fr0. last (chain x) = create (initial P) None (action0 P) 0"
    by (simp add: fr0_def push_def create_def)
  with it have "\<forall>x\<in>set fr. last (chain x) = create (initial P) None (action0 P) 0"
    by (rule gs_iter_rooted)
  moreover have "S \<in> set fr"
    using assms(2) by (simp add: pop_Some)
  ultimately have root: "last (chain S) = create (initial P) None (action0 P) 0"
    by blast
  then have st: "last (map state (chain S)) = initial P"
    by (simp add: last_map chain_not_Nil create_def)
  have links: "\<forall>i. Suc i < length (chain S) \<longrightarrow> parent (chain S ! i) = Some (chain S ! Suc i)"
    by (intro allI impI) (rule chain_links)
  show ?thesis
    using res hd_chain[of S] links root last_chain_root[of S] st by (intro conjI)
qed

theorem graph_search_goal_path_witness:
  "best_first_search (Suc (Suc (Suc 0))) P1 ucs [7] = Some (Inr ([7, 2, 1, 0], 2))"
proof -
  have "pop [Node 2 (Some (Node 1 (Some (Node 0 None 0 0)) 1 1)) 2 2 :: (nat, nat, nat) node]
      = Some (Node 2 (Some (Node 1 (Some (Node 0 None 0 0)) 1 1)) 2 2, [])"
    by (simp add: pop_def)
  moreover have "goal_test P1 (state (Node 2 (Some (Node 1 (Some (Node 0 None 0 0)) 1 1)) 2 2 :: (nat, nat, nat) node))"
    by (simp add: P1_def)
  ultimately show ?thesis
    using graph_search_goal_path[OF gs_state_P1_2, of _ _ 0 "[7]"] by simp
qed

text \<open>
  Claim C9.  When the initial state passes the goal test, Graph Search returns path cost
  0 and writes exactly the initial state to the sink.  The loop completes no iteration
  of its \<open>else\<close> branch (the only place where the closed set is inserted into and the
  policies are called): the root is popped, tested and reported.  The result does not
  depend on the actions, result and step-cost policies: it is the same whatever they
  are.
\<close>

theorem graph_search_goal_at_root:
  assumes "goal_test P (initial P)"
  shows "best_first_search (Suc k) P cmp path = Some (Inr (path @ [initial P], 0)) \<and>
    gs_state (Suc 0) P cmp = None \<and>
    (\<forall>acts res sc.
       best_first_search (Suc k) (P\<lparr>actions := acts, result := res, step_cost := sc\<rparr>) cmp path =
         Some (Inr (path @ [initial P], 0)))"
  using assms
  by (simp add: best_first_search_def gs_state_def push_def create_def pop_def)

theorem graph_search_goal_at_root_witness:
  "best_first_search (Suc 0) P_goal0 ucs [] = Some (Inr ([0], 0)) \<and>
   gs_state (Suc 0) P_goal0 ucs = None"
proof -
  have "goal_test P_goal0 (initial P_goal0)"
    by (simp add: P_goal0_def)
  from graph_search_goal_at_root[OF this, of 0 ucs "[]"] show ?thesis
    by (simp add: P_goal0_def)
qed

section \<open>Recursive best-first search: bounds and costs\<close>

lemma NodeCost_less_cost: "NodeCost_less split y x \<Longrightarrow> cost x \<le> cost y"
  for x y :: "('s, 'a, 'c::linorder) NodeCost"
  by (auto simp: NodeCost_less_def split: if_splits)

lemma not_NodeCost_less_cost: "\<not> NodeCost_less split y x \<Longrightarrow> cost y \<le> cost x"
  for x y :: "('s, 'a, 'c::linorder) NodeCost"
  by (auto simp: NodeCost_less_def split: if_splits)

lemma sorted_heap_push:
  fixes x :: "('s, 'a, 'c::linorder) NodeCost"
  shows "sorted (map cost xs) \<Longrightarrow> sorted (map cost (heap_push (NodeCost_less split) x xs))"
proof (induction xs)
  case Nil
  then show ?case by simp
next
  case (Cons y ys)
  show ?case
  proof (cases "NodeCost_less split y x")
    case True
    then have "cost x \<le> cost y" by (rule NodeCost_less_cost)
    with Cons.prems True show ?thesis by auto
  next
    case False
    then have "cost y \<le> cost x" by (rule not_NodeCost_less_cost)
    moreover from Cons have "sorted (map cost (heap_push (NodeCost_less split) x ys))" by simp
    ultimately show ?thesis
      using Cons.prems False by (auto simp: set_heap_push)
  qed
qed

lemma sorted_fold_heap_push:
  fixes g :: "'x \<Rightarrow> ('s, 'a, 'c::linorder) NodeCost"
  shows "sorted (map cost acc) \<Longrightarrow>
    sorted (map cost (fold (\<lambda>a ch. heap_push (NodeCost_less split) (g a) ch) as acc))"
  by (induction as arbitrary: acc) (auto simp: sorted_heap_push)


lemma sorted_rbfs_children: "sorted (map cost (rbfs_children P f split N F))"
  unfolding rbfs_children_def Let_def
  by (rule sorted_fold_heap_push) simp


lemma sorted_update_best:
  fixes BEST :: "('s, 'a, 'c::linorder) NodeCost"
  shows "sorted (map cost (BEST # rest)) \<Longrightarrow> sorted (map cost (update_best split BEST c rest))"
  unfolding update_best_def by (rule sorted_heap_push) simp

lemma best_le_second:
  fixes BEST :: "('s, 'a, 'c::{linorder,order_top}) NodeCost"
  shows "sorted (map cost (BEST # rest)) \<Longrightarrow> cost BEST \<le> SECOND_BEST_COST rest"
  by (cases rest) (auto simp: SECOND_BEST_COST_def RBFS_INF_def)

lemma rbfs_no_goal_cost:
  "(rbfs k P f split N F B = Some (None, c) \<longrightarrow> B < c \<or> (B = RBFS_INF \<and> c = RBFS_INF)) \<and>
   (rbfs_loop k P f split B cs = Some (None, c) \<longrightarrow> B < c \<or> (B = RBFS_INF \<and> c = RBFS_INF))"
proof (induction k arbitrary: N F B cs c)
  case 0
  show ?case by simp
next
  case (Suc k)
  have 1: "rbfs (Suc k) P f split N F B = Some (None, c) \<longrightarrow>
      B < c \<or> (B = RBFS_INF \<and> c = RBFS_INF)"
  proof
    assume r: "rbfs (Suc k) P f split N F B = Some (None, c)"
    show "B < c \<or> (B = RBFS_INF \<and> c = RBFS_INF)"
    proof (cases "f N > B")
      case True
      with r show ?thesis by simp
    next
      case nb: False
      show ?thesis
      proof (cases "goal_test P (state N)")
        case True
        with r nb show ?thesis by simp
      next
        case ng: False
        show ?thesis
        proof (cases "actions P (state N) = []")
          case True
          with r nb ng have "c = RBFS_INF" by simp
          then show ?thesis
            by (metis RBFS_INF_def top.not_eq_extremum)
        next
          case False
          with r nb ng have "rbfs_loop k P f split B (rbfs_children P f split N F) = Some (None, c)"
            by simp
          with Suc show ?thesis by blast
        qed
      qed
    qed
  qed
  have 2: "rbfs_loop (Suc k) P f split B cs = Some (None, c) \<longrightarrow>
      B < c \<or> (B = RBFS_INF \<and> c = RBFS_INF)"
  proof
    assume r: "rbfs_loop (Suc k) P f split B cs = Some (None, c)"
    then obtain BEST rest where cs: "cs = BEST # rest" by (cases cs) auto
    show "B < c \<or> (B = RBFS_INF \<and> c = RBFS_INF)"
    proof (cases "cost BEST \<le> B \<and> cost BEST < RBFS_INF")
      case True
      let ?r = "rbfs k P f split (node BEST) (cost BEST) (min B (SECOND_BEST_COST rest))"
      from r cs True obtain c' where "?r = Some (None, c')"
        and "rbfs_loop k P f split B (update_best split BEST c' rest) = Some (None, c)"
        by (auto split: option.splits)
      with Suc show ?thesis by blast
    next
      case False
      with r cs have c: "c = cost BEST" by simp
      show ?thesis
      proof (cases "cost BEST \<le> B")
        case True
        with False have "cost BEST = RBFS_INF"
          by (metis RBFS_INF_def top.not_eq_extremum)
        moreover with True have "B = RBFS_INF"
          by (simp add: RBFS_INF_def top_unique)
        ultimately show ?thesis using c by simp
      next
        case False
        then have "B < cost BEST" by (simp add: not_le)
        with c show ?thesis by simp
      qed
    qed
  qed
  from 1 2 show ?case by blast
qed

lemma rbfs_calls_bound:
  "(\<forall>x\<in>set (rbfs_calls k P f split N F B). fst (snd x) \<le> snd (snd x) \<and> fst (snd x) < RBFS_INF) \<and>
   (sorted (map cost cs) \<longrightarrow>
     (\<forall>x\<in>set (loop_calls k P f split B cs). fst (snd x) \<le> snd (snd x) \<and> fst (snd x) < RBFS_INF))"
proof (induction k arbitrary: N F B cs)
  case 0
  show ?case by simp
next
  case (Suc k)
  have 1: "\<forall>x\<in>set (rbfs_calls (Suc k) P f split N F B).
      fst (snd x) \<le> snd (snd x) \<and> fst (snd x) < RBFS_INF"
    using Suc[of N F B "rbfs_children P f split N F"] sorted_rbfs_children[of P f split N F]
    by (simp add: Let_def)
  have 2: "sorted (map cost cs) \<longrightarrow>
     (\<forall>x\<in>set (loop_calls (Suc k) P f split B cs).
        fst (snd x) \<le> snd (snd x) \<and> fst (snd x) < RBFS_INF)"
  proof
    assume s: "sorted (map cost cs)"
    show "\<forall>x\<in>set (loop_calls (Suc k) P f split B cs).
        fst (snd x) \<le> snd (snd x) \<and> fst (snd x) < RBFS_INF"
    proof (cases cs)
      case Nil
      then show ?thesis by simp
    next
      case (Cons BEST rest)
      show ?thesis
      proof (cases "cost BEST \<le> B \<and> cost BEST < RBFS_INF")
        case False
        with Cons show ?thesis by auto
      next
        case True
        let ?B = "min B (SECOND_BEST_COST rest)"
        have le: "cost BEST \<le> ?B"
          using True best_le_second[of BEST rest] s Cons by simp
        have nested: "\<forall>x\<in>set (rbfs_calls k P f split (node BEST) (cost BEST) ?B).
            fst (snd x) \<le> snd (snd x) \<and> fst (snd x) < RBFS_INF"
          using Suc by blast
        have later: "\<And>c. \<forall>x\<in>set (loop_calls k P f split B (update_best split BEST c rest)).
            fst (snd x) \<le> snd (snd x) \<and> fst (snd x) < RBFS_INF"
          using Suc sorted_update_best[of BEST rest split] s Cons by blast
        show ?thesis
          using Cons True le nested later
          by (auto simp: Let_def split: option.splits)
      qed
    qed
  qed
  from 1 2 show ?case by blast
qed

lemma top_word8: "(top :: 8 word) = 255"
  by (simp add: top_word_eq)

text \<open>
  Claim C1 (amended).  When an invocation of the recursive function returns no goal
  node, the returned cost is strictly greater than the bound \<open>B\<close> of the call, except
  when \<open>B\<close> is already \<open>RBFS_INF\<close> (the greatest value of the cost type, as in the
  top-level call): then the returned cost is \<open>RBFS_INF\<close> too.  And every recursive call
  made during the invocation, in its own child loop or in one below, is made on a child
  whose stored cost \<open>F'\<close> does not exceed the bound \<open>B'\<close> of that call.
\<close>

theorem rbfs_bound_invariant:
  "(rbfs k P f split N F B = Some (None, c) \<longrightarrow> B < c \<or> (B = RBFS_INF \<and> c = RBFS_INF)) \<and>
   (\<forall>(N', F', B') \<in> set (rbfs_calls k P f split N F B). F' \<le> B')"
proof
  show "rbfs k P f split N F B = Some (None, c) \<longrightarrow> B < c \<or> (B = RBFS_INF \<and> c = RBFS_INF)"
    using rbfs_no_goal_cost[of k P f split N F B c] by blast
  have "\<forall>x\<in>set (rbfs_calls k P f split N F B). fst (snd x) \<le> snd (snd x)"
    using rbfs_calls_bound[of k P f split N F B "[]"] by blast
  then show "\<forall>(N', F', B') \<in> set (rbfs_calls k P f split N F B). F' \<le> B'"
    by auto
qed

lemma rbfs_P2_bound1:
  "rbfs (Suc (Suc (Suc (Suc 0)))) P2 path_cost first_wins (Node 0 None 0 0) 0 1 = Some (None, 2)"
  by (simp add: P2_def first_wins_def rbfs_children_def child2_def child_def create_def
      f_RESULT_def NodeCost_less_def RBFS_INF_def top_word8 SECOND_BEST_COST_def update_best_def
      word_le_nat_alt word_less_nat_alt)

lemma rbfs_calls_P2_bound1:
  "rbfs_calls (Suc (Suc (Suc (Suc 0)))) P2 path_cost first_wins (Node 0 None 0 0) 0 1 =
     [(Node 1 (Some (Node 0 None 0 0)) 1 1, 1, 1)]"
  by (simp add: P2_def first_wins_def rbfs_children_def child2_def child_def create_def
      f_RESULT_def NodeCost_less_def RBFS_INF_def top_word8 SECOND_BEST_COST_def update_best_def
      word_le_nat_alt word_less_nat_alt)

theorem rbfs_bound_invariant_witness:
  "rbfs (Suc (Suc (Suc (Suc 0)))) P2 path_cost first_wins (Node 0 None 0 0) 0 1 = Some (None, 2) \<and>
   rbfs_calls (Suc (Suc (Suc (Suc 0)))) P2 path_cost first_wins (Node 0 None 0 0) 0 1 =
     [(Node 1 (Some (Node 0 None 0 0)) 1 1, 1, 1)] \<and>
   (1 :: 8 word) < 2 \<and> (1 :: 8 word) \<le> 1"
  using rbfs_bound_invariant[of "Suc (Suc (Suc (Suc 0)))" P2 path_cost first_wins
      "Node 0 None 0 0" 0 1 2]
    rbfs_P2_bound1 rbfs_calls_P2_bound1
  by simp

text \<open>
  Claim C1 as stated fails for the call of the entry point on a root that is no goal and
  has no actions: the bound passed is \<open>RBFS_INF\<close>, the call returns no goal with the
  cost \<open>RBFS_INF\<close>, which is not strictly greater than the bound.
\<close>

theorem rbfs_bound_counterexample:
  "rbfs (Suc 0) P_dead path_cost first_wins (Node 0 None 0 0) 0 RBFS_INF = Some (None, RBFS_INF) \<and>
   \<not> (RBFS_INF :: 8 word) < RBFS_INF"
  by (simp add: P_dead_def)












lemma second_best_Min:
  fixes rest :: "('s, 'a, 'c::{linorder,order_top}) NodeCost list"
  assumes "sorted (map cost rest)"
  shows "SECOND_BEST_COST rest = (if rest = [] then RBFS_INF else Min (cost ` set rest))"
proof (cases rest)
  case Nil
  then show ?thesis by (simp add: SECOND_BEST_COST_def)
next
  case (Cons y ys)
  with assms have "\<forall>z\<in>cost ` set rest. cost y \<le> z" by auto
  moreover have "cost y \<in> cost ` set rest" using Cons by simp
  ultimately have "Min (cost ` set rest) = cost y"
    by (intro Min_eqI) auto
  with Cons show ?thesis by (simp add: SECOND_BEST_COST_def)
qed

text \<open>
  Claim C4.  One iteration of the child loop, on the ordered children \<open>BEST # rest\<close>.
  \<open>BEST\<close> has the least stored cost and \<open>SECOND_BEST_COST\<close> is the least cost of the
  others, \<open>RBFS_INF\<close> when there are none.  When the test \<open>cost BEST \<le> B\<close> and
  \<open>cost BEST < RBFS_INF\<close> fails, the loop is left without a recursive call and the frame
  returns no goal with the cost of \<open>BEST\<close>.  When it holds, the recursive call is made
  on \<open>BEST\<close> with its stored cost and the bound \<open>min B SECOND_BEST_COST\<close>; a goal
  result is returned as it is; a result without goal and with cost \<open>c\<close> makes the loop
  go on with the children in which \<open>BEST\<close> has the cost \<open>c\<close>, every other entry is
  unchanged, and the order by cost is restored.
\<close>

theorem rbfs_loop_iteration:
  assumes "sorted (map cost (BEST # rest))"
  shows "(\<forall>x\<in>set rest. cost BEST \<le> cost x) \<and>
    SECOND_BEST_COST rest = (if rest = [] then RBFS_INF else Min (cost ` set rest)) \<and>
    (\<not> (cost BEST \<le> B \<and> cost BEST < RBFS_INF) \<longrightarrow>
       rbfs_loop (Suc k) P f split B (BEST # rest) = Some (None, cost BEST) \<and>
       loop_calls (Suc k) P f split B (BEST # rest) = []) \<and>
    (cost BEST \<le> B \<and> cost BEST < RBFS_INF \<longrightarrow>
       hd (loop_calls (Suc k) P f split B (BEST # rest)) =
         (node BEST, cost BEST, min B (SECOND_BEST_COST rest)) \<and>
       (\<forall>g c. rbfs k P f split (node BEST) (cost BEST) (min B (SECOND_BEST_COST rest)) =
            Some (Some g, c) \<longrightarrow>
          rbfs_loop (Suc k) P f split B (BEST # rest) = Some (Some g, c)) \<and>
       (\<forall>c. rbfs k P f split (node BEST) (cost BEST) (min B (SECOND_BEST_COST rest)) =
            Some (None, c) \<longrightarrow>
          rbfs_loop (Suc k) P f split B (BEST # rest) =
            rbfs_loop k P f split B (update_best split BEST c rest) \<and>
          mset (update_best split BEST c rest) = add_mset (BEST\<lparr>cost := c\<rparr>) (mset rest) \<and>
          sorted (map cost (update_best split BEST c rest))))"
proof (intro conjI)
  show "\<forall>x\<in>set rest. cost BEST \<le> cost x"
    using assms by auto
  show "SECOND_BEST_COST rest = (if rest = [] then RBFS_INF else Min (cost ` set rest))"
    using assms by (intro second_best_Min) simp
  show "\<not> (cost BEST \<le> B \<and> cost BEST < RBFS_INF) \<longrightarrow>
       rbfs_loop (Suc k) P f split B (BEST # rest) = Some (None, cost BEST) \<and>
       loop_calls (Suc k) P f split B (BEST # rest) = []"
    by auto
  show "cost BEST \<le> B \<and> cost BEST < RBFS_INF \<longrightarrow>
       hd (loop_calls (Suc k) P f split B (BEST # rest)) =
         (node BEST, cost BEST, min B (SECOND_BEST_COST rest)) \<and>
       (\<forall>g c. rbfs k P f split (node BEST) (cost BEST) (min B (SECOND_BEST_COST rest)) =
            Some (Some g, c) \<longrightarrow>
          rbfs_loop (Suc k) P f split B (BEST # rest) = Some (Some g, c)) \<and>
       (\<forall>c. rbfs k P f split (node BEST) (cost BEST) (min B (SECOND_BEST_COST rest)) =
            Some (None, c) \<longrightarrow>
          rbfs_loop (Suc k) P f split B (BEST # rest) =
            rbfs_loop k P f split B (update_best split BEST c rest) \<and>
          mset (update_best split BEST c rest) = add_mset (BEST\<lparr>cost := c\<rparr>) (mset rest) \<and>
          sorted (map cost (update_best split BEST c rest)))"
    using sorted_update_best[OF assms, of split]
    by (simp add: Let_def update_best_def mset_heap_push)
qed

lemma rbfs_loop_P2_bound1:
  "rbfs_loop (Suc (Suc (Suc 0))) P2 path_cost first_wins 1
     [\<lparr>node = Node 1 (Some (Node 0 None 0 0)) 1 1, cost = 1\<rparr>,
      \<lparr>node = Node 2 (Some (Node 0 None 0 0)) 2 4, cost = 4\<rparr>] = Some (None, 2)"
  by (simp add: P2_def first_wins_def rbfs_children_def child2_def child_def create_def
      f_RESULT_def NodeCost_less_def RBFS_INF_def top_word8 SECOND_BEST_COST_def update_best_def
      word_le_nat_alt word_less_nat_alt)

theorem rbfs_loop_iteration_witness:
  "rbfs_loop (Suc (Suc (Suc 0))) P2 path_cost first_wins 1
     [\<lparr>node = Node 1 (Some (Node 0 None 0 0)) 1 1, cost = 1\<rparr>,
      \<lparr>node = Node 2 (Some (Node 0 None 0 0)) 2 4, cost = 4\<rparr>] = Some (None, 2) \<and>
   SECOND_BEST_COST ([\<lparr>node = Node 2 (Some (Node 0 None 0 0)) 2 4, cost = 4\<rparr>]
      :: (nat, nat, 8 word) NodeCost list) = 4 \<and>
   rbfs (Suc (Suc 0)) P2 path_cost first_wins (Node 1 (Some (Node 0 None 0 0)) 1 1) 1 1 =
     Some (None, 2) \<and>
   update_best first_wins \<lparr>node = Node 1 (Some (Node 0 None 0 0)) 1 1, cost = 1 :: 8 word\<rparr> 2
     [\<lparr>node = Node 2 (Some (Node 0 None 0 0)) 2 4, cost = 4\<rparr> :: (nat, nat, 8 word) NodeCost] =
     [\<lparr>node = Node 1 (Some (Node 0 None 0 0)) 1 1, cost = 2\<rparr>,
      \<lparr>node = Node 2 (Some (Node 0 None 0 0)) 2 4, cost = 4\<rparr>]"
proof -
  have s: "sorted (map cost
     [\<lparr>node = Node 1 (Some (Node 0 None 0 0)) 1 1, cost = 1 :: 8 word\<rparr>,
      \<lparr>node = Node 2 (Some (Node 0 None 0 0)) 2 4, cost = 4\<rparr> :: (nat, nat, 8 word) NodeCost])"
    by (simp add: word_le_nat_alt)
  have r: "rbfs (Suc (Suc 0)) P2 path_cost first_wins (Node 1 (Some (Node 0 None 0 0)) 1 1) 1 1 =
     Some (None, 2)"
    by (simp add: P2_def first_wins_def rbfs_children_def child2_def child_def create_def
      f_RESULT_def NodeCost_less_def RBFS_INF_def top_word8 SECOND_BEST_COST_def update_best_def
      word_le_nat_alt word_less_nat_alt)
  have u: "update_best first_wins \<lparr>node = Node 1 (Some (Node 0 None 0 0)) 1 1, cost = 1 :: 8 word\<rparr> 2
     [\<lparr>node = Node 2 (Some (Node 0 None 0 0)) 2 4, cost = 4\<rparr> :: (nat, nat, 8 word) NodeCost] =
     [\<lparr>node = Node 1 (Some (Node 0 None 0 0)) 1 1, cost = 2\<rparr>,
      \<lparr>node = Node 2 (Some (Node 0 None 0 0)) 2 4, cost = 4\<rparr>]"
    by (simp add: update_best_def NodeCost_less_def first_wins_def word_less_nat_alt)
  from rbfs_loop_iteration[OF s, of 1 "Suc (Suc 0)" P2 path_cost first_wins]
  have "SECOND_BEST_COST ([\<lparr>node = Node 2 (Some (Node 0 None 0 0)) 2 4, cost = 4\<rparr>]
      :: (nat, nat, 8 word) NodeCost list) = 4"
    by simp
  with rbfs_loop_P2_bound1 r u show ?thesis by (intro conjI)
qed

text \<open>
  Claim C8.  \<open>RBFS_INF\<close> is the greatest value of the cost type, a value like any other.
  A node that is reached by the function (not pruned by the bound, not a goal) and has
  no actions returns exactly \<open>RBFS_INF\<close> as its cost; the entry point calls the
  recursion with the bound \<open>RBFS_INF\<close>; the child loop makes no recursive call when the
  best stored cost is \<open>RBFS_INF\<close> and returns it; and no recursive call is ever made on
  a child whose stored cost is \<open>RBFS_INF\<close>.
\<close>

theorem rbfs_infinity:
  fixes P :: "('s, 'a, 'c::{linorder,order_top,plus,zero}) problem"
  shows "RBFS_INF = (top :: 'c) \<and> (\<forall>c :: 'c. c \<le> RBFS_INF) \<and>
   (\<not> B < f N \<and> \<not> goal_test P (state N) \<and> actions P (state N) = [] \<longrightarrow>
      rbfs (Suc k) P f split N F B = Some (None, RBFS_INF)) \<and>
   recursive_best_first_search k P f split =
     (case rbfs k P f split (create (initial P) None (action0 P) 0)
             (f (create (initial P) None (action0 P) 0)) RBFS_INF of
        None \<Rightarrow> None
      | Some (None, c) \<Rightarrow> Some (Inl goal_not_found)
      | Some (Some g, c) \<Rightarrow> Some (Inr g)) \<and>
   (cost BEST = RBFS_INF \<longrightarrow>
      rbfs_loop (Suc k) P f split B (BEST # rest) = Some (None, RBFS_INF) \<and>
      loop_calls (Suc k) P f split B (BEST # rest) = []) \<and>
   (\<forall>(N', F', B') \<in> set (rbfs_calls k P f split N F B). F' \<noteq> RBFS_INF)"
proof (intro conjI)
  show "RBFS_INF = (top :: 'c)" by (simp add: RBFS_INF_def)
  show "\<forall>c :: 'c. c \<le> RBFS_INF" by (simp add: RBFS_INF_def)
  show "\<not> B < f N \<and> \<not> goal_test P (state N) \<and> actions P (state N) = [] \<longrightarrow>
      rbfs (Suc k) P f split N F B = Some (None, RBFS_INF)"
    by simp
  show "recursive_best_first_search k P f split =
     (case rbfs k P f split (create (initial P) None (action0 P) 0)
             (f (create (initial P) None (action0 P) 0)) RBFS_INF of
        None \<Rightarrow> None
      | Some (None, c) \<Rightarrow> Some (Inl goal_not_found)
      | Some (Some g, c) \<Rightarrow> Some (Inr g))"
    by (simp add: recursive_best_first_search_def RBFS_INF_def Let_def)
  show "cost BEST = RBFS_INF \<longrightarrow>
      rbfs_loop (Suc k) P f split B (BEST # rest) = Some (None, RBFS_INF) \<and>
      loop_calls (Suc k) P f split B (BEST # rest) = []"
    by simp
  have "\<forall>x\<in>set (rbfs_calls k P f split N F B). fst (snd x) < RBFS_INF"
    using rbfs_calls_bound[of k P f split N F B "[]"] by blast
  then show "\<forall>(N', F', B') \<in> set (rbfs_calls k P f split N F B). F' \<noteq> RBFS_INF"
    by auto
qed

lemma rbfs_children_P_far:
  "rbfs_children P_far path_cost first_wins (Node 0 None 0 0) 0 =
     [\<lparr>node = Node 1 (Some (Node 0 None 0 0)) 1 255, cost = 255\<rparr>]"
  by (simp add: P_far_def rbfs_children_def child2_def child_def create_def f_RESULT_def)

text \<open>
  With 8-bit costs \<open>RBFS_INF\<close> is 255.  In \<open>P_far\<close> the only child of the root is the
  goal, at path cost 255: the loop does not recurse into it and the entry point throws,
  whereas Graph Search returns the path of cost 255.
\<close>

theorem rbfs_infinity_witness:
  "(RBFS_INF :: 8 word) = 255 \<and>
   rbfs_children P_far path_cost first_wins (Node 0 None 0 0) 0 =
     [\<lparr>node = Node 1 (Some (Node 0 None 0 0)) 1 255, cost = 255\<rparr>] \<and>
   rbfs_loop (Suc 0) P_far path_cost first_wins RBFS_INF
     [\<lparr>node = Node 1 (Some (Node 0 None 0 0)) 1 255, cost = 255\<rparr>] = Some (None, 255) \<and>
   recursive_best_first_search (Suc (Suc 0)) P_far path_cost first_wins = Some (Inl goal_not_found) \<and>
   best_first_search (Suc (Suc 0)) P_far ucs [] = Some (Inr ([1, 0], 255))"
proof -
  note t = rbfs_infinity[where P = P_far and f = path_cost and split = first_wins
      and N = "Node 0 None 0 0" and F = 0 and B = RBFS_INF and rest = "[]"
      and BEST = "\<lparr>node = Node 1 (Some (Node 0 None 0 0)) 1 255, cost = 255\<rparr>"]
  have inf: "(RBFS_INF :: 8 word) = 255"
    using t by (simp add: top_word8)
  have loop1: "rbfs_loop (Suc 0) P_far path_cost first_wins RBFS_INF
     [\<lparr>node = Node 1 (Some (Node 0 None 0 0)) 1 255, cost = 255\<rparr>] = Some (None, 255)"
    using t[where k = 0] inf by simp
  have "rbfs (Suc (Suc 0)) P_far path_cost first_wins (Node 0 None 0 0) 0 RBFS_INF = Some (None, 255)"
    using loop1 rbfs_children_P_far by (simp add: P_far_def)
  then have top: "recursive_best_first_search (Suc (Suc 0)) P_far path_cost first_wins =
      Some (Inl goal_not_found)"
    by (simp add: recursive_best_first_search_def create_def P_far_def RBFS_INF_def)
  have gs: "best_first_search (Suc (Suc 0)) P_far ucs [] = Some (Inr ([1, 0], 255))"
    by (simp add: best_first_search_def P_far_def ucs_def push_def create_def pop_def expand_def
        handle_child_def child_def)
  from inf rbfs_children_P_far loop1 top gs show ?thesis by (intro conjI)
qed

lemma ts_loop_throws:
  "ts_loop k P cmp fr = Some (Inl goal_not_found) \<longleftrightarrow> (\<exists>n<k. ts_iter n P cmp fr = Some [])"
proof (induction k arbitrary: fr)
  case 0
  then show ?case by simp
next
  case (Suc k)
  show ?case
  proof (cases "pop fr")
    case None
    then have "fr = []" by (simp add: pop_None)
    then have "ts_iter 0 P cmp fr = Some []" by simp
    then have "\<exists>n<Suc k. ts_iter n P cmp fr = Some []" by blast
    with None show ?thesis by simp
  next
    case (Some a)
    then obtain S rest where p: "pop fr = Some (S, rest)" by (cases a) auto
    then have ne: "fr \<noteq> []" by (auto simp: pop_Some)
    show ?thesis
    proof (cases "goal_test P (state S)")
      case True
      have "\<not> (\<exists>n<Suc k. ts_iter n P cmp fr = Some [])"
      proof
        assume "\<exists>n<Suc k. ts_iter n P cmp fr = Some []"
        then obtain n where "ts_iter n P cmp fr = Some []" by blast
        with p True ne show False by (cases n) auto
      qed
      with p True show ?thesis by simp
    next
      case False
      let ?fr = "ts_expand P cmp S rest"
      have "(\<exists>n<Suc k. ts_iter n P cmp fr = Some []) \<longleftrightarrow>
            (\<exists>n<k. ts_iter n P cmp ?fr = Some [])"
      proof
        assume "\<exists>n<Suc k. ts_iter n P cmp fr = Some []"
        then obtain n where n: "n < Suc k" "ts_iter n P cmp fr = Some []" by blast
        with ne obtain m where "n = Suc m" by (cases n) auto
        with n p False have "m < k" "ts_iter m P cmp ?fr = Some []"
          by auto
        then show "\<exists>n<k. ts_iter n P cmp ?fr = Some []" by blast
      next
        assume "\<exists>n<k. ts_iter n P cmp ?fr = Some []"
        then obtain m where "m < k" "ts_iter m P cmp ?fr = Some []" by blast
        with p False have "Suc m < Suc k" "ts_iter (Suc m) P cmp fr = Some []"
          by auto
        then show "\<exists>n<Suc k. ts_iter n P cmp fr = Some []" by blast
      qed
      with p False Suc.IH[of ?fr] show ?thesis by simp
    qed
  qed
qed

text \<open>
  Claim C7.  \<open>goal_not_found\<close> is the only error there is.  With fuel \<open>k\<close>, Graph Search
  throws it exactly when, after some \<open>n < k\<close> iterations none of which popped a state
  passing the goal test, the frontier is empty; Tree Search likewise; and the entry point
  of RBFS throws it exactly when the top-level recursive call returns a pair without goal
  node.  The thrown result carries nothing else: no sink contents, cost or node.
\<close>

theorem goal_not_found_iff:
  "(best_first_search k Pg cmp path = Some (Inl goal_not_found) \<longleftrightarrow>
      (\<exists>n<k. \<exists>cl. gs_state n Pg cmp = Some ([], cl))) \<and>
   (best_first_search_tree k Pt cmp' = Some (Inl goal_not_found) \<longleftrightarrow>
      (\<exists>n<k. ts_state n Pt cmp' = Some [])) \<and>
   (recursive_best_first_search k Pr f split = Some (Inl goal_not_found) \<longleftrightarrow>
      (\<exists>c. rbfs k Pr f split (create (initial Pr) None (action0 Pr) 0)
             (f (create (initial Pr) None (action0 Pr) 0)) RBFS_INF = Some (None, c))) \<and>
   (\<forall>e :: error. e = goal_not_found)"
proof (intro conjI)
  show "best_first_search k Pg cmp path = Some (Inl goal_not_found) \<longleftrightarrow>
      (\<exists>n<k. \<exists>cl. gs_state n Pg cmp = Some ([], cl))"
    unfolding best_first_search_def gs_state_def by (rule gs_loop_throws)
  show "best_first_search_tree k Pt cmp' = Some (Inl goal_not_found) \<longleftrightarrow>
      (\<exists>n<k. ts_state n Pt cmp' = Some [])"
    unfolding best_first_search_tree_def ts_state_def by (rule ts_loop_throws)
  show "recursive_best_first_search k Pr f split = Some (Inl goal_not_found) \<longleftrightarrow>
      (\<exists>c. rbfs k Pr f split (create (initial Pr) None (action0 Pr) 0)
             (f (create (initial Pr) None (action0 Pr) 0)) RBFS_INF = Some (None, c))"
    by (auto simp: recursive_best_first_search_def RBFS_INF_def Let_def split: option.splits)
  show "\<forall>e :: error. e = goal_not_found"
    by (intro allI) (rule error.exhaust, assumption)
qed

theorem goal_not_found_iff_witness:
  "best_first_search (Suc (Suc 0)) P_dead ucs [] = Some (Inl goal_not_found) \<and>
   gs_state (Suc 0) P_dead ucs = Some ([], {0}) \<and>
   best_first_search_tree (Suc (Suc 0)) P_dead ucs = Some (Inl goal_not_found) \<and>
   ts_state (Suc 0) P_dead ucs = Some [] \<and>
   recursive_best_first_search (Suc 0) P_dead path_cost first_wins = Some (Inl goal_not_found) \<and>
   rbfs (Suc 0) P_dead path_cost first_wins (Node 0 None 0 0) 0 RBFS_INF = Some (None, RBFS_INF)"
proof -
  note t = goal_not_found_iff[of "Suc (Suc 0)" P_dead ucs "[]" P_dead ucs]
  have g1: "gs_state (Suc 0) P_dead ucs = Some ([], {0})"
    by (simp add: gs_state_def P_dead_def push_def create_def pop_def expand_def)
  then have "\<exists>n<Suc (Suc 0). \<exists>cl. gs_state n P_dead ucs = Some ([], cl)"
    by blast
  with t have g: "best_first_search (Suc (Suc 0)) P_dead ucs [] = Some (Inl goal_not_found)"
    by blast
  have t1: "ts_state (Suc 0) P_dead ucs = Some []"
    by (simp add: ts_state_def P_dead_def create_def pop_def ts_expand_def)
  then have "\<exists>n<Suc (Suc 0). ts_state n P_dead ucs = Some []"
    by blast
  with t have ts: "best_first_search_tree (Suc (Suc 0)) P_dead ucs = Some (Inl goal_not_found)"
    by blast
  have r1: "rbfs (Suc 0) P_dead path_cost first_wins (Node 0 None 0 0) 0 RBFS_INF =
      Some (None, RBFS_INF)"
    by (simp add: P_dead_def)
  then have r: "recursive_best_first_search (Suc 0) P_dead path_cost first_wins =
      Some (Inl goal_not_found)"
    by (simp add: recursive_best_first_search_def create_def P_dead_def RBFS_INF_def)
  from g g1 ts t1 r r1 show ?thesis by (intro conjI)
qed

end
